theory Spec2Isabelle
  imports Main "HOL-Library.Word"
begin

unbundle bit_operations_syntax

section \<open>The byte-aligned rANS coder (rans\_byte.h part of rANS\_static.c)\<close>

text \<open>
  Machine integers are words: a coder state is a \<open>uint32_t\<close>, a byte a \<open>uint8_t\<close>.
  The encoder writes its bytes backwards (\<open>*--ptr = b\<close>); the output is modelled by the
  list of the bytes from \<open>ptr\<close> to the end of the buffer, so that one write is a \<open>#\<close>.
  \<open>RansAssert\<close> expands to nothing in this file (\<open>assert.h\<close> is only included after the
  header part), so the \<open>RansAssert\<close> lines have no counterpart here.
\<close>


type_synonym RansState = "32 word"
type_synonym byte = "8 word"

definition RANS_BYTE_L :: "32 word" where
  "RANS_BYTE_L = push_bit 23 1"

text \<open>
  The loop \<open>do { *--ptr = (uint8_t) (x & 0xff); x >>= 8; } while (x >= x_max);\<close> of
  \<open>RansEncRenorm\<close> and \<open>RansEncPutSymbol\<close>. With \<open>x_max = 0\<close> the exit test never
  fails and the loop does not return: that is the value \<open>None\<close>. Otherwise every round
  makes \<open>x\<close> smaller, which is the termination argument.
\<close>

lemma drop_bit8_less: "x \<noteq> 0 \<Longrightarrow> unat (drop_bit 8 (x::32 word)) < unat x"
proof -
  assume "x \<noteq> 0"
  hence "0 < unat x" by (simp add: unat_gt_0)
  hence "unat x div 256 < unat x" by simp
  thus ?thesis by (simp add: drop_bit_eq_div unat_div)
qed

function enc_renorm_loop :: "32 word \<Rightarrow> 32 word \<Rightarrow> byte list \<Rightarrow> (32 word \<times> byte list) option" where
  "enc_renorm_loop x_max x out =
     (if x_max = 0 then None
      else let out' = ucast (x AND 0xff) # out; x' = drop_bit 8 x
           in if x' \<ge> x_max then enc_renorm_loop x_max x' out' else Some (x', out'))"
  by pat_completeness auto
termination
proof (relation "measure (\<lambda>(x_max, x, out). unat x)")
  show "wf (measure (\<lambda>(x_max, x, out). unat x))" by simp
next
  fix x_max x :: "32 word" and out out' :: "byte list" and x' :: "32 word"
  assume a: "x_max \<noteq> 0" "x' = drop_bit 8 x" "x_max \<le> x'"
  have "x' \<noteq> 0" using a by auto
  hence "x \<noteq> 0" using a by auto
  thus "((x_max, x', out'), (x_max, x, out)) \<in> measure (\<lambda>(x_max, x, out). unat x)"
    using a drop_bit8_less by simp
qed

declare enc_renorm_loop.simps [simp del]

definition RansEncRenorm :: "RansState \<Rightarrow> byte list \<Rightarrow> 32 word \<Rightarrow> nat \<Rightarrow> (RansState \<times> byte list) option" where
  "RansEncRenorm x out freq scale_bits =
     (let x_max = push_bit 8 (drop_bit scale_bits RANS_BYTE_L) * freq
      in if x \<ge> x_max then enc_renorm_loop x_max x out else Some (x, out))"

definition RansEncPut :: "RansState \<Rightarrow> byte list \<Rightarrow> 32 word \<Rightarrow> 32 word \<Rightarrow> nat \<Rightarrow> (RansState \<times> byte list) option" where
  "RansEncPut r out start freq scale_bits =
     (case RansEncRenorm r out freq scale_bits of
        None \<Rightarrow> None
      | Some (x, out') \<Rightarrow> Some (push_bit scale_bits (x div freq) + (x mod freq) + start, out'))"

record RansEncSymbol =
  x_max :: "32 word"
  rcp_freq :: "32 word"
  bias :: "32 word"
  cmpl_freq :: "16 word"
  rcp_shift :: "16 word"

text \<open>
  \<open>while (freq > (1u << shift)) shift++;\<close> in \<open>RansEncSymbolInit\<close>. A shift by 32 or
  more is undefined in C; the model stops there (it is not reached for \<open>freq \<le> 2^31\<close>).
\<close>

function ceil_log2_loop :: "32 word \<Rightarrow> nat \<Rightarrow> nat" where
  "ceil_log2_loop freq shift =
     (if shift < 32 \<and> freq > push_bit shift 1 then ceil_log2_loop freq (shift + 1) else shift)"
  by pat_completeness auto
termination
  by (relation "measure (\<lambda>(freq, shift). 32 - shift)") auto

declare ceil_log2_loop.simps [simp del]

definition RansEncSymbolInit :: "32 word \<Rightarrow> 32 word \<Rightarrow> nat \<Rightarrow> RansEncSymbol" where
  "RansEncSymbolInit start freq scale_bits =
     (let xm = push_bit 8 (drop_bit scale_bits RANS_BYTE_L) * freq;
          cf = (ucast (push_bit scale_bits 1 - freq) :: 16 word)
      in if freq < 2
         then \<lparr> x_max = xm, rcp_freq = NOT 0,
                bias = start + push_bit scale_bits 1 - 1,
                cmpl_freq = cf, rcp_shift = 0 + 32 \<rparr>
         else let shift = ceil_log2_loop freq 0
              in \<lparr> x_max = xm,
                   rcp_freq = ucast (((push_bit (shift + 31) 1 + ucast freq - 1) :: 64 word) div ucast freq),
                   bias = start,
                   cmpl_freq = cf, rcp_shift = (word_of_nat shift - 1) + 32 \<rparr>)"

text \<open>
  \<open>RansEncPutSymbol\<close>: the same renormalisation with the stored \<open>x_max\<close>, then
  \<open>q = (uint32_t) (((uint64_t)x * sym->rcp_freq) >> sym->rcp_shift)\<close> and
  \<open>*r = x + sym->bias + q * sym->cmpl_freq\<close>.
\<close>

definition RansEncPutSymbol :: "RansState \<Rightarrow> byte list \<Rightarrow> RansEncSymbol \<Rightarrow> (RansState \<times> byte list) option" where
  "RansEncPutSymbol r out s =
     (case (if r \<ge> x_max s then enc_renorm_loop (x_max s) r out else Some (r, out)) of
        None \<Rightarrow> None
      | Some (x, out') \<Rightarrow>
          (let q = (ucast (drop_bit (unat (rcp_shift s)) ((ucast x :: 64 word) * ucast (rcp_freq s))) :: 32 word)
           in Some (x + bias s + q * ucast (cmpl_freq s), out')))"




subsection \<open>Facts about the encoder primitives\<close>

lemma recip_div:
  fixes x f s :: nat
  assumes f: "0 < f" "f \<le> 2 ^ s" and x: "x < 2 ^ 31"
  shows "(x * ((2 ^ (s + 31) + f - 1) div f)) div 2 ^ (s + 31) = x div f"
proof -
  define m where "m = (2 ^ (s + 31) + f - 1) div f"
  define e where "e = m * f - 2 ^ (s + 31)"
  have dm: "m * f + (2 ^ (s + 31) + f - 1) mod f = 2 ^ (s + 31) + f - 1"
    unfolding m_def by simp
  have ml: "(2 ^ (s + 31) + f - 1) mod f < f" using f(1) by simp
  have m1: "m * f \<le> 2 ^ (s + 31) + f - 1"
    using dm by linarith
  have m2: "2 ^ (s + 31) \<le> m * f"
    using dm ml by linarith
  have e: "m * f = 2 ^ (s + 31) + e" "e < f" using m1 m2 f(1) by (auto simp: e_def)
  define q where "q = x div f"
  have dq: "q * f + x mod f = x" unfolding q_def by simp
  have "x mod f < f" using f(1) by simp
  hence qx: "q * f \<le> x" "x < (q + 1) * f"
    using dq by (auto simp: algebra_simps)
  have lower: "q * 2 ^ (s + 31) \<le> x * m"
  proof -
    have "q * 2 ^ (s + 31) * f \<le> x * m * f"
    proof -
      have "q * 2 ^ (s + 31) * f = (q * f) * 2 ^ (s + 31)" by (simp add: algebra_simps)
      also have "\<dots> \<le> x * 2 ^ (s + 31)" using qx by simp
      also have "\<dots> \<le> x * (m * f)" using m2 by simp
      finally show ?thesis by (simp add: algebra_simps)
    qed
    thus ?thesis using f(1) by simp
  qed
  have upper: "x * m < (q + 1) * 2 ^ (s + 31)"
  proof -
    have xe: "x * e < 2 ^ (s + 31)"
    proof (cases "e = 0")
      case True thus ?thesis by simp
    next
      case False
      have "x * e < 2 ^ 31 * e" using x False by simp
      also have "\<dots> \<le> 2 ^ 31 * 2 ^ s" using e(2) f(2) by simp
      finally show ?thesis by (simp add: power_add mult.commute)
    qed
    have "x * m * f = x * (m * f)" by simp
    also have "\<dots> = x * (2 ^ (s + 31) + e)" using e(1) by simp
    also have "\<dots> = x * 2 ^ (s + 31) + x * e" by (simp only: distrib_left)
    also have "\<dots> < x * 2 ^ (s + 31) + 2 ^ (s + 31)" using xe by simp
    also have "\<dots> = (x + 1) * 2 ^ (s + 31)" by (simp add: algebra_simps)
    also have "\<dots> \<le> ((q + 1) * f) * 2 ^ (s + 31)"
    proof (rule mult_le_mono1)
      show "x + 1 \<le> (q + 1) * f" using qx(2) by simp
    qed
    finally have "x * m * f < ((q + 1) * 2 ^ (s + 31)) * f" by (simp add: algebra_simps)
    thus ?thesis by simp
  qed
  have "(x * m) div 2 ^ (s + 31) = q"
    using lower upper by (simp add: div_nat_eqI mult.commute)
  thus ?thesis by (simp add: m_def q_def)
qed

lemma unat_p2: "n < 32 \<Longrightarrow> unat (2 ^ n :: 32 word) = 2 ^ n"
  using unsigned_push_bit_eq[of n "1::32 word", where ?'a = nat]
  by (simp add: take_bit_nat_eq_self)

lemma unat_pb1: "n < 32 \<Longrightarrow> unat (push_bit n 1 :: 32 word) = 2 ^ n"
  using unat_p2 by simp

definition clog_inv :: "nat \<Rightarrow> nat \<Rightarrow> bool" where
  "clog_inv f k \<longleftrightarrow> k \<le> 12 \<and> (k = 0 \<or> 2 ^ (k - 1) < f)"

lemma ceil_log2_loop_spec:
  "unat f \<le> 2 ^ 12 \<Longrightarrow> clog_inv (unat f) k \<Longrightarrow>
   clog_inv (unat f) (ceil_log2_loop f k) \<and> unat f \<le> 2 ^ ceil_log2_loop f k"
proof (induction f k rule: ceil_log2_loop.induct)
  case (1 freq shift)
  have k12: "shift \<le> 12" using 1(3) by (simp add: clog_inv_def)
  hence k32: "shift < 32" by simp
  show ?case
  proof (cases "freq > push_bit shift 1")
    case True
    hence gt: "2 ^ shift < unat freq"
      unfolding word_less_nat_alt unat_pb1[OF k32] .
    hence "(2::nat) ^ shift < 2 ^ 12" using 1(2) by (rule less_le_trans)
    hence "shift < 12" by (rule power_less_imp_less_exp[rotated]) simp
    hence inv': "clog_inv (unat freq) (shift + 1)"
      using gt by (simp add: clog_inv_def)
    have "ceil_log2_loop freq shift = ceil_log2_loop freq (shift + 1)"
      using True k32 by (subst ceil_log2_loop.simps) simp
    moreover have "clog_inv (unat freq) (ceil_log2_loop freq (shift + 1)) \<and>
        unat freq \<le> 2 ^ ceil_log2_loop freq (shift + 1)"
      using True k32 by (intro 1(1)[OF _ 1(2) inv']) simp
    ultimately show ?thesis by simp
  next
    case False
    hence le: "unat freq \<le> 2 ^ shift"
      unfolding word_less_nat_alt unat_pb1[OF k32] by simp
    have "ceil_log2_loop freq shift = shift"
      using False by (subst ceil_log2_loop.simps) simp
    thus ?thesis using le 1(3) by simp
  qed
qed



lemma enc_renorm_loop_bound:
  "enc_renorm_loop xm x out = Some (x', out') \<Longrightarrow> x' < xm"
proof (induction xm x out rule: enc_renorm_loop.induct)
  case (1 x_max x out)
  show ?case
  proof (cases "x_max = 0")
    case True thus ?thesis using 1(2) by (subst (asm) enc_renorm_loop.simps) simp
  next
    case False
    show ?thesis
    proof (cases "drop_bit 8 x \<ge> x_max")
      case True
      hence "enc_renorm_loop x_max (drop_bit 8 x) (ucast (x AND 0xff) # out) = Some (x', out')"
        using 1(2) False by (subst (asm) enc_renorm_loop.simps) (simp add: Let_def)
      thus ?thesis using 1(1)[OF False refl refl True] by simp
    next
      case F2: False
      hence "x' = drop_bit 8 x" using 1(2) False by (subst (asm) enc_renorm_loop.simps) (simp add: Let_def)
      thus ?thesis using F2 by simp
    qed
  qed
qed

lemma enc_renorm_loop_lower:
  "enc_renorm_loop xm x out = Some (x', out') \<Longrightarrow> xm \<le> x \<Longrightarrow> unat xm div 256 \<le> unat x'"
proof (induction xm x out rule: enc_renorm_loop.induct)
  case (1 x_max x out)
  show ?case
  proof (cases "x_max = 0")
    case True thus ?thesis using 1(2) by (subst (asm) enc_renorm_loop.simps) simp
  next
    case False
    show ?thesis
    proof (cases "drop_bit 8 x \<ge> x_max")
      case True
      hence "enc_renorm_loop x_max (drop_bit 8 x) (ucast (x AND 0xff) # out) = Some (x', out')"
        using 1(2) False by (subst (asm) enc_renorm_loop.simps) (simp add: Let_def)
      thus ?thesis using 1(1)[OF False refl refl True] True by simp
    next
      case F2: False
      hence "x' = drop_bit 8 x" using 1(2) False by (subst (asm) enc_renorm_loop.simps) (simp add: Let_def)
      hence "unat x' = unat x div 256" by (simp add: drop_bit_eq_div unat_div)
      moreover have "unat x_max \<le> unat x" using 1(3) by (simp add: word_le_nat_alt)
      ultimately show ?thesis by (simp add: div_le_mono)
    qed
  qed
qed



lemma enc_renorm_loop_Some:
  "xm \<noteq> 0 \<Longrightarrow> \<exists>r. enc_renorm_loop xm x out = Some r"
proof (induction xm x out rule: enc_renorm_loop.induct)
  case (1 x_max x out)
  show ?case
  proof (cases "drop_bit 8 x \<ge> x_max")
    case True
    have "enc_renorm_loop x_max x out = enc_renorm_loop x_max (drop_bit 8 x) (ucast (x AND 0xff) # out)"
      using True 1(2) by (subst enc_renorm_loop.simps) (simp add: Let_def)
    thus ?thesis using 1(1)[OF 1(2) refl refl True] 1(2) by simp
  next
    case False
    thus ?thesis using 1(2) by (subst enc_renorm_loop.simps) (simp add: Let_def)
  qed
qed

lemma unat_L: "unat RANS_BYTE_L = 2 ^ 23"
  by (simp add: RANS_BYTE_L_def)

lemma xmax12: "push_bit 8 (drop_bit 12 RANS_BYTE_L) = (524288 :: 32 word)"
  by (simp add: RANS_BYTE_L_def)

lemma unat_xmax:
  assumes "unat freq \<le> 2 ^ 12"
  shows "unat ((524288 :: 32 word) * freq) = 2 ^ 19 * unat freq"
proof -
  have "(2::nat) ^ 19 * unat freq \<le> 2 ^ 19 * 2 ^ 12" using assms by (rule mult_le_mono2)
  hence "unat (524288 :: 32 word) * unat freq < 2 ^ LENGTH(32)" by simp
  hence "unat ((524288 :: 32 word) * freq) = unat (524288 :: 32 word) * unat freq"
    by (simp only: unat_mult_lem)
  thus ?thesis by simp
qed

text \<open>The common renormalisation step of both encoders.\<close>
lemma renorm_common:
  assumes f: "1 \<le> unat freq" "unat freq \<le> 2 ^ 12" and x: "2 ^ 23 \<le> unat x"
  defines "xm \<equiv> (524288 :: 32 word) * freq"
  shows "\<exists>x1 out1. (if x \<ge> xm then enc_renorm_loop xm x out else Some (x, out)) = Some (x1, out1)
           \<and> unat x1 < 2 ^ 19 * unat freq \<and> 2 ^ 11 \<le> unat x1"
proof -
  have uxm: "unat xm = 2 ^ 19 * unat freq" unfolding xm_def using f(2) by (rule unat_xmax)
  hence xm0: "xm \<noteq> 0" using f(1) by (auto simp: unat_eq_zero[symmetric] simp del: unat_eq_zero)
  show ?thesis
  proof (cases "x \<ge> xm")
    case True
    obtain x1 out1 where r: "enc_renorm_loop xm x out = Some (x1, out1)"
      using enc_renorm_loop_Some[OF xm0, of x out] by auto
    have "x1 < xm" using r by (rule enc_renorm_loop_bound)
    hence b1: "unat x1 < 2 ^ 19 * unat freq" using uxm by (simp add: word_less_nat_alt)
    have "unat xm div 256 \<le> unat x1" using r True by (rule enc_renorm_loop_lower)
    moreover have "(2::nat) ^ 19 * 1 \<le> 2 ^ 19 * unat freq" using f(1) by (rule mult_le_mono2)
    ultimately have "2 ^ 11 \<le> unat x1" using uxm by simp
    thus ?thesis using True r b1 by simp
  next
    case False
    hence "unat x < 2 ^ 19 * unat freq" using uxm by (simp add: word_le_nat_alt)
    thus ?thesis using False x by simp
  qed
qed

lemma unat_ucast_32_64: "unat (ucast (w::32 word) :: 64 word) = unat w"
proof -
  have "unat w < 2 ^ 32" using unsigned_less[of w, where ?'a = nat] by simp
  hence "unat w < 2 ^ 64" by simp
  thus ?thesis by (simp add: unsigned_ucast_eq take_bit_nat_eq_self)
qed

lemma unat_ucast_64_32: "unat w < 2 ^ 32 \<Longrightarrow> unat (ucast (w::64 word) :: 32 word) = unat w"
  by (simp add: unsigned_ucast_eq take_bit_nat_eq_self)

lemma unat_mul64:
  assumes "unat (a::32 word) * unat (b::32 word) < 2 ^ 64"
  shows "unat ((ucast a :: 64 word) * ucast b) = unat a * unat b"
proof -
  have "unat (ucast a :: 64 word) * unat (ucast b :: 64 word) < 2 ^ LENGTH(64)"
    using assms by (simp add: unat_ucast_32_64)
  hence "unat ((ucast a :: 64 word) * ucast b) = unat (ucast a :: 64 word) * unat (ucast b :: 64 word)"
    by (simp only: unat_mult_lem)
  thus ?thesis by (simp add: unat_ucast_32_64)
qed

lemma unat_p2_64: "n < 64 \<Longrightarrow> unat (2 ^ n :: 64 word) = 2 ^ n"
  using unsigned_push_bit_eq[of n "1::64 word", where ?'a = nat]
  by (simp add: take_bit_nat_eq_self)

lemma unat_lt32: "unat (w::32 word) < 2 ^ 32"
  using unsigned_less[of w, where ?'a = nat] by simp

text \<open>The multiply-shift quotient, on naturals.\<close>
lemma mulshift_unat:
  assumes "unat (x::32 word) * unat (m::32 word) div 2 ^ k < 2 ^ 32"
  shows "unat (ucast (drop_bit k ((ucast x :: 64 word) * ucast m)) :: 32 word)
         = unat x * unat m div 2 ^ k"
proof -
  have "unat x * unat m < 2 ^ 32 * 2 ^ 32"
    using unat_lt32[of x] unat_lt32[of m] by (intro mult_strict_mono) auto
  hence lt: "unat x * unat m < 2 ^ 64" by simp
  have "unat (drop_bit k ((ucast x :: 64 word) * ucast m))
        = drop_bit k (unat ((ucast x :: 64 word) * ucast m))"
    by (rule unat_drop_bit_eq)
  also have "\<dots> = unat ((ucast x :: 64 word) * ucast m) div 2 ^ k"
    by (rule drop_bit_eq_div)
  finally have "unat (drop_bit k ((ucast x :: 64 word) * ucast m)) = unat x * unat m div 2 ^ k"
    by (simp only: unat_mul64[OF lt])
  thus ?thesis using assms by (simp add: unat_ucast_64_32)
qed

lemma fast_quot_ge2:
  fixes x freq start :: "32 word"
  assumes f: "2 \<le> unat freq" "unat freq \<le> 2 ^ 12" and x: "unat x < 2 ^ 31"
  defines "S \<equiv> RansEncSymbolInit start freq 12"
  shows "(ucast (drop_bit (unat (rcp_shift S)) ((ucast x :: 64 word) * ucast (rcp_freq S))) :: 32 word)
         = x div freq"
    and "bias S = start"
proof -
  define s where "s = ceil_log2_loop freq 0"
  have inv0: "clog_inv (unat freq) 0" by (simp add: clog_inv_def)
  have sp: "clog_inv (unat freq) s" "unat freq \<le> 2 ^ s"
    using ceil_log2_loop_spec[OF f(2) inv0] by (simp_all add: s_def)
  have s12: "s \<le> 12" using sp(1) by (simp add: clog_inv_def)
  have s1: "1 \<le> s"
  proof (rule ccontr)
    assume "\<not> 1 \<le> s" hence "s = 0" by simp
    thus False using sp(2) f(1) by simp
  qed
  have half: "2 ^ (s - 1) < unat freq" using sp(1) s1 by (auto simp: clog_inv_def)
  have f2: "\<not> freq < 2" using f(1) by (simp add: word_less_nat_alt)
  define m where "m = (2 ^ (s + 31) + unat freq - 1) div unat freq"
  have fpos: "0 < unat freq" using f(1) by simp
  \<comment> \<open>the reciprocal fits 32 bits\<close>
  have mlt: "m < 2 ^ 32"
  proof (rule ccontr)
    assume "\<not> m < 2 ^ 32"
    hence "2 ^ 32 \<le> m" by simp
    hence "2 ^ 32 * unat freq \<le> m * unat freq" by (rule mult_le_mono1)
    moreover have "m * unat freq \<le> 2 ^ (s + 31) + unat freq - 1"
      unfolding m_def by (rule div_times_less_eq_dividend)
    moreover have "2 ^ (s - 1) + 1 \<le> unat freq" using half by simp
    hence "2 ^ 32 * (2 ^ (s - 1) + 1) \<le> 2 ^ 32 * unat freq" by (rule mult_le_mono2)
    moreover have "32 + (s - 1) = s + 31" using s1 by simp
    hence "(2::nat) ^ 32 * 2 ^ (s - 1) = 2 ^ (s + 31)"
      by (simp only: power_add[symmetric])
    hence "(2::nat) ^ 32 * (2 ^ (s - 1) + 1) = 2 ^ (s + 31) + 2 ^ 32"
      by (simp only: distrib_left mult_1_right)
    moreover have "unat freq < 2 ^ 32" by (rule unat_lt32)
    ultimately show False by linarith
  qed
  have rs: "rcp_shift S = word_of_nat s - 1 + 32" and bs: "bias S = start"
    and rf: "rcp_freq S = ucast (((push_bit (s + 31) 1 + ucast freq - 1) :: 64 word) div ucast freq)"
    using f2 by (simp_all add: S_def RansEncSymbolInit_def Let_def s_def)
  show "bias S = start" by (rule bs)
  have urs: "unat (rcp_shift S) = s + 31"
  proof -
    have e: "(word_of_nat s - 1 + 32 :: 16 word) = word_of_nat (s + 31)"
      by simp
    have "s + 31 < 2 ^ LENGTH(16)" using s12 by simp
    hence "unat (word_of_nat (s + 31) :: 16 word) = s + 31"
      by (simp only: unat_of_nat mod_less)
    thus ?thesis unfolding rs e .
  qed
  have urf: "unat (rcp_freq S) = m"
  proof -
    have le44: "(2::nat) ^ (s + 31) \<le> 2 ^ 43"
      using s12 by (intro power_increasing) auto
    have pb: "(push_bit (s + 31) 1 :: 64 word) = 2 ^ (s + 31)" by simp
    have p: "unat (2 ^ (s + 31) :: 64 word) = 2 ^ (s + 31)"
      using s12 by (simp add: unat_p2_64)
    have n1: "unat (2 ^ (s + 31) + ucast freq :: 64 word) = 2 ^ (s + 31) + unat freq"
    proof -
      have "(2::nat) ^ (s + 31) + unat freq < 2 ^ LENGTH(64)"
        using le44 f(2) by simp
      hence "unat (2 ^ (s + 31) :: 64 word) + unat (ucast freq :: 64 word) < 2 ^ LENGTH(64)"
        by (simp only: p unat_ucast_32_64)
      hence "unat (2 ^ (s + 31) + ucast freq :: 64 word)
             = unat (2 ^ (s + 31) :: 64 word) + unat (ucast freq :: 64 word)"
        by (simp only: unat_add_lem)
      thus ?thesis by (simp only: p unat_ucast_32_64)
    qed
    have n2: "unat (2 ^ (s + 31) + ucast freq - 1 :: 64 word) = 2 ^ (s + 31) + unat freq - 1"
    proof -
      have "unat (1 :: 64 word) \<le> unat (2 ^ (s + 31) + ucast freq :: 64 word)"
        using fpos by (simp only: n1 unat_1)
      hence "1 \<le> (2 ^ (s + 31) + ucast freq :: 64 word)"
        by (simp only: word_le_nat_alt)
      hence "unat (2 ^ (s + 31) + ucast freq - 1 :: 64 word)
             = unat (2 ^ (s + 31) + ucast freq :: 64 word) - unat (1 :: 64 word)"
        by (rule unat_sub)
      thus ?thesis by (simp only: n1 unat_1)
    qed
    have "unat (((2 ^ (s + 31) + ucast freq - 1) :: 64 word) div ucast freq) = m"
      by (simp only: unat_div n2 unat_ucast_32_64 m_def)
    hence "unat (((push_bit (s + 31) 1 + ucast freq - 1) :: 64 word) div ucast freq) = m"
      by (simp only: pb)
    thus ?thesis using mlt unfolding rf by (simp add: unat_ucast_64_32)
  qed
  have rd: "unat x * m div 2 ^ (s + 31) = unat x div unat freq"
    unfolding m_def using fpos sp(2) x by (rule recip_div)
  have "unat x div unat freq < 2 ^ 32"
    using x by (meson div_le_dividend le_less_trans less_trans power_strict_increasing_iff
        one_less_numeral_iff semiring_norm(76) numeral_less_iff semiring_norm(78,79,81))
  hence "unat (ucast (drop_bit (s + 31) ((ucast x :: 64 word) * ucast (rcp_freq S))) :: 32 word)
         = unat x * m div 2 ^ (s + 31)"
    using mulshift_unat[of x "rcp_freq S" "s + 31"] by (simp add: urf rd)
  hence "unat (ucast (drop_bit (unat (rcp_shift S)) ((ucast x :: 64 word) * ucast (rcp_freq S))) :: 32 word)
         = unat (x div freq)"
    by (simp add: urs rd unat_div)
  thus "(ucast (drop_bit (unat (rcp_shift S)) ((ucast x :: 64 word) * ucast (rcp_freq S))) :: 32 word)
         = x div freq"
    by (simp only: word_unat_eq_iff)
qed

lemma recip_one:
  fixes x :: nat
  assumes "0 < x" "x < 2 ^ 32"
  shows "x * (2 ^ 32 - 1) div 2 ^ 32 = x - 1"
proof (rule div_nat_eqI)
  have e: "x * (2 ^ 32 - 1) = x * 2 ^ 32 - x" by (simp add: diff_mult_distrib2)
  have "2 ^ 32 * (x - 1) = x * 2 ^ 32 - 2 ^ 32" by (simp add: diff_mult_distrib2 mult.commute)
  thus "2 ^ 32 * (x - 1) \<le> x * (2 ^ 32 - 1)" using assms e by simp
  have "x * 2 ^ 32 - x < x * 2 ^ 32" using assms by simp
  moreover have "Suc (x - 1) = x" using assms by simp
  ultimately show "x * (2 ^ 32 - 1) < 2 ^ 32 * Suc (x - 1)" using e by (simp add: mult.commute)
qed

lemma fast_quot_one:
  fixes x start :: "32 word"
  assumes x: "0 < unat x"
  defines "S \<equiv> RansEncSymbolInit start 1 12"
  shows "(ucast (drop_bit (unat (rcp_shift S)) ((ucast x :: 64 word) * ucast (rcp_freq S))) :: 32 word)
         = x - 1"
    and "bias S = start + 2 ^ 12 - 1"
    and "rcp_freq S = 0xFFFFFFFF"
    and "rcp_shift S = 0 + 32"
proof -
  have rs: "rcp_shift S = 32" and rf: "rcp_freq S = 0xFFFFFFFF" and bs: "bias S = start + 2 ^ 12 - 1"
    by (simp_all add: S_def RansEncSymbolInit_def Let_def)
  show "bias S = start + 2 ^ 12 - 1" by (rule bs)
  show "rcp_freq S = 0xFFFFFFFF" by (rule rf)
  show "rcp_shift S = 0 + 32" using rs by simp
  have um: "unat (0xFFFFFFFF :: 32 word) = 2 ^ 32 - 1" by simp
  have q: "unat x * (2 ^ 32 - 1) div 2 ^ 32 = unat x - 1"
    using x unat_lt32[of x] by (rule recip_one)
  have "unat x - 1 < 2 ^ 32" using unat_lt32[of x] by simp
  hence "unat x * unat (0xFFFFFFFF :: 32 word) div 2 ^ 32 < 2 ^ 32"
    by (simp only: um q)
  hence "unat (ucast (drop_bit 32 ((ucast x :: 64 word) * ucast (0xFFFFFFFF :: 32 word))) :: 32 word)
        = unat x * unat (0xFFFFFFFF :: 32 word) div 2 ^ 32"
    by (rule mulshift_unat)
  also have "\<dots> = unat x - 1" by (simp only: um q)
  also have "\<dots> = unat (x - 1)"
  proof -
    have "unat (1::32 word) \<le> unat x" using x by simp
    hence "1 \<le> x" by (simp only: word_le_nat_alt)
    thus ?thesis by (simp add: unat_sub)
  qed
  finally have "(ucast (drop_bit 32 ((ucast x :: 64 word) * ucast (0xFFFFFFFF :: 32 word))) :: 32 word) = x - 1"
    by (simp only: word_unat_eq_iff)
  moreover have "unat (rcp_shift S) = 32" by (simp add: rs)
  ultimately show "(ucast (drop_bit (unat (rcp_shift S)) ((ucast x :: 64 word) * ucast (rcp_freq S))) :: 32 word)
         = x - 1"
    by (simp only: rf)
qed

lemma cmpl_freq_val:
  fixes freq start :: "32 word"
  assumes "1 \<le> unat freq" "unat freq \<le> 2 ^ 12"
  shows "(ucast (cmpl_freq (RansEncSymbolInit start freq 12)) :: 32 word) = 2 ^ 12 - freq"
    and "x_max (RansEncSymbolInit start freq 12) = 524288 * freq"
proof -
  have c: "cmpl_freq (RansEncSymbolInit start freq 12) = ucast (2 ^ 12 - freq)"
    by (simp add: RansEncSymbolInit_def Let_def)
  have le: "freq \<le> 2 ^ 12" using assms(2) by (simp add: word_le_nat_alt)
  hence "unat (2 ^ 12 - freq :: 32 word) = 2 ^ 12 - unat freq"
    by (simp add: unat_sub)
  hence lt: "unat (2 ^ 12 - freq :: 32 word) < 2 ^ 16" by simp
  have "unat (ucast (ucast (2 ^ 12 - freq :: 32 word) :: 16 word) :: 32 word) = unat (2 ^ 12 - freq :: 32 word)"
    using lt by (simp add: unsigned_ucast_eq unsigned_take_bit_eq take_bit_nat_eq_self)
  thus "(ucast (cmpl_freq (RansEncSymbolInit start freq 12)) :: 32 word) = 2 ^ 12 - freq"
    unfolding c by (simp only: word_unat_eq_iff)
  show "x_max (RansEncSymbolInit start freq 12) = 524288 * freq"
    by (simp add: RansEncSymbolInit_def Let_def xmax12)
qed

lemma word_enc_algebra:
  fixes x freq start :: "32 word"
  shows "x + start + (x div freq) * (2 ^ 12 - freq) = push_bit 12 (x div freq) + x mod freq + start"
proof -
  have "x = (x div freq) * freq + x mod freq" by (simp add: word_mod_div_equality)
  hence "x + start + (x div freq) * (2 ^ 12 - freq)
        = ((x div freq) * freq + x mod freq) + start + (x div freq) * (2 ^ 12 - freq)" by simp
  also have "\<dots> = (x div freq) * 2 ^ 12 + x mod freq + start"
    by (simp add: algebra_simps)
  finally show ?thesis by (simp add: push_bit_eq_mult)
qed

text \<open>
  Claim C2. For every \<open>start\<close> and \<open>freq\<close> with \<open>freq \<ge> 1\<close> and
  \<open>start + freq \<le> 4096\<close>, and every coder state in \<open>[2^23, 2^23 * 2^8)\<close>, encoding with
  \<open>RansEncPutSymbol\<close> on the record built by \<open>RansEncSymbolInit start freq 12\<close> gives
  the same new state and the same emitted bytes as \<open>RansEncPut start freq 12\<close>, and both
  return. For \<open>freq = 1\<close> the record is the special case
  \<open>rcp_freq = 0xFFFFFFFF\<close>, \<open>rcp_shift = 0\<close> (stored with the 32 already added) and
  \<open>bias = start + 2^12 - 1\<close>.
\<close>

theorem RansEncPutSymbol_eq_RansEncPut:
  fixes x freq start :: "32 word"
  assumes f: "1 \<le> unat freq" "unat start + unat freq \<le> 2 ^ 12"
      and x: "2 ^ 23 \<le> unat x" "unat x < 2 ^ 23 * 2 ^ 8"
  shows "RansEncPutSymbol x out (RansEncSymbolInit start freq 12) = RansEncPut x out start freq 12
         \<and> (\<exists>x' out'. RansEncPut x out start freq 12 = Some (x', out'))
         \<and> (freq = 1 \<longrightarrow> rcp_freq (RansEncSymbolInit start freq 12) = 0xFFFFFFFF
                \<and> rcp_shift (RansEncSymbolInit start freq 12) = 0 + 32
                \<and> bias (RansEncSymbolInit start freq 12) = start + 2 ^ 12 - 1)"
proof -
  let ?S = "RansEncSymbolInit start freq 12"
  have f12: "unat freq \<le> 2 ^ 12" using f(2) by simp
  have xm: "x_max ?S = 524288 * freq" and cf: "(ucast (cmpl_freq ?S) :: 32 word) = 2 ^ 12 - freq"
    using cmpl_freq_val[OF f(1) f12] by simp_all
  obtain x1 out1 where
    r: "(if x \<ge> 524288 * freq then enc_renorm_loop (524288 * freq) x out else Some (x, out)) = Some (x1, out1)"
    and b: "unat x1 < 2 ^ 19 * unat freq" "2 ^ 11 \<le> unat x1"
    using renorm_common[OF f(1) f12 x(1), of out] by blast
  have "(2::nat) ^ 19 * unat freq \<le> 2 ^ 19 * 2 ^ 12" using f12 by (rule mult_le_mono2)
  hence x31: "unat x1 < 2 ^ 31" using b(1) by simp
  have x0: "0 < unat x1" using b(2) by simp
  have put: "RansEncPut x out start freq 12 = Some (push_bit 12 (x1 div freq) + x1 mod freq + start, out1)"
    unfolding RansEncPut_def RansEncRenorm_def Let_def xmax12 r by simp
  let ?Q = "(ucast (drop_bit (unat (rcp_shift ?S)) ((ucast x1 :: 64 word) * ucast (rcp_freq ?S))) :: 32 word)"
  have q: "x1 + bias ?S + ?Q * (2 ^ 12 - freq) = push_bit 12 (x1 div freq) + x1 mod freq + start"
  proof (cases "unat freq = 1")
    case True
    hence f1: "freq = 1" by (simp add: word_unat_eq_iff)
    have qq: "(ucast (drop_bit (unat (rcp_shift (RansEncSymbolInit start 1 12)))
                 ((ucast x1 :: 64 word) * ucast (rcp_freq (RansEncSymbolInit start 1 12)))) :: 32 word) = x1 - 1"
      and bb: "bias (RansEncSymbolInit start 1 12) = start + 2 ^ 12 - 1"
      using fast_quot_one[OF x0, of start] by simp_all
    show ?thesis unfolding f1 qq bb by (simp add: algebra_simps push_bit_eq_mult)
  next
    case False
    hence f2: "2 \<le> unat freq" using f(1) by simp
    have qq: "?Q = x1 div freq"
      and bb: "bias ?S = start"
      using fast_quot_ge2[OF f2 f12 x31, of start] by simp_all
    show ?thesis unfolding qq bb by (rule word_enc_algebra)
  qed
  have sym: "RansEncPutSymbol x out ?S = Some (push_bit 12 (x1 div freq) + x1 mod freq + start, out1)"
    unfolding RansEncPutSymbol_def xm r by (simp only: option.case prod.case Let_def cf q)
  have one: "freq = 1 \<longrightarrow> rcp_freq ?S = 0xFFFFFFFF \<and> rcp_shift ?S = 0 + 32 \<and> bias ?S = start + 2 ^ 12 - 1"
    by (simp add: RansEncSymbolInit_def Let_def)
  show ?thesis using put sym one by simp
qed

theorem RansEncPutSymbol_eq_RansEncPut_witness:
  "RansEncPutSymbol 305419896 [] (RansEncSymbolInit 5 3 12) = RansEncPut 305419896 [] 5 3 12
   \<and> RansEncPut 305419896 [] 5 3 12 = Some (1628905477, [120])
   \<and> RansEncPutSymbol 305419896 [7] (RansEncSymbolInit 9 1 12) = RansEncPut 305419896 [7] 9 1 12
   \<and> RansEncPut 305419896 [7] 9 1 12 = Some (19087369, [86, 120, 7])"
proof -
  have a: "RansEncPut 305419896 [] 5 3 12 = Some (1628905477, [120])"
    by (simp add: RansEncPut_def RansEncRenorm_def RANS_BYTE_L_def enc_renorm_loop.simps Let_def)
  have b: "RansEncPut 305419896 [7] 9 1 12 = Some (19087369, [86, 120, 7])"
    by (simp add: RansEncPut_def RansEncRenorm_def RANS_BYTE_L_def enc_renorm_loop.simps Let_def)
  show ?thesis
    using RansEncPutSymbol_eq_RansEncPut[of 3 5 305419896 "[]"]
          RansEncPutSymbol_eq_RansEncPut[of 1 9 305419896 "[7]"] a b
    by simp
qed

end
